theory Spec2Isabelle
  imports Complex_Main
begin

section \<open>FaceShield: separable Gaussian blur and face compositing (blur-faces.js)\<close>

text \<open>
  The development follows \<^verbatim>\<open>src/blur-faces.js\<close>.  JavaScript numbers are modelled by
  the real numbers: the rounding of IEEE doubles and of \<^verbatim>\<open>Float32Array\<close> cells is not
  modelled, so every statement below is about the exact arithmetic the code denotes.
  The only non-real number that the code can produce by itself, \<^verbatim>\<open>NaN\<close> from reading a
  typed array out of range, is kept as a value of its own.
\<close>

subsection \<open>Kernel construction (lines 37-47)\<close>

definition sigma_of :: "real \<Rightarrow> real" where
  "sigma_of radius = max 1 (radius / 2.5)"

definition kHalf_of :: "real \<Rightarrow> int" where
  "kHalf_of radius = \<lceil>sigma_of radius * 3\<rceil>"

definition kLen_of :: "real \<Rightarrow> int" where
  "kLen_of radius = kHalf_of radius * 2 + 1"

text \<open>Body of the first loop: \<^verbatim>\<open>kernel[i] = Math.exp(-(x*x)/(2*sigma*sigma)); kSum += kernel[i]\<close>.\<close>

definition kernel_fill :: "real \<Rightarrow> int \<Rightarrow> real list \<times> real \<Rightarrow> nat \<Rightarrow> real list \<times> real" where
  "kernel_fill sigma kHalf st i =
     (let ker = fst st; kSum = snd st;
          x = int i - kHalf;
          ker' = ker[i := exp (- (real_of_int (x * x)) / (2 * sigma * sigma))]
      in (ker', kSum + ker' ! i))"

text \<open>Body of the second loop: \<^verbatim>\<open>kernel[i] /= kSum\<close>.\<close>

definition kernel_norm :: "real \<Rightarrow> real list \<Rightarrow> nat \<Rightarrow> real list" where
  "kernel_norm kSum ker i = ker[i := ker ! i / kSum]"

text \<open>
  Lines 40-47: the kernel is a fresh zero-filled \<^verbatim>\<open>Float32Array(kLen)\<close>, filled by the first
  loop and divided by \<^verbatim>\<open>kSum\<close> by the second.
\<close>

definition build_kernel :: "real \<Rightarrow> int \<Rightarrow> int \<Rightarrow> real list" where
  "build_kernel sigma kHalf kLen =
     (let ker0 = replicate (nat kLen) (0::real);
          st = foldl (kernel_fill sigma kHalf) (ker0, 0) [0..<nat kLen]
      in foldl (kernel_norm (snd st)) (fst st) [0..<nat kLen])"

text \<open>The kernel that \<^verbatim>\<open>separableGaussianBlur\<close> uses for a given radius (lines 37-47).\<close>

definition kernel_of :: "real \<Rightarrow> real list" where
  "kernel_of radius = build_kernel (sigma_of radius) (kHalf_of radius) (kLen_of radius)"

text \<open>The unnormalised Gaussian weight at kernel index \<open>i\<close>.\<close>

definition gauss_w :: "real \<Rightarrow> int \<Rightarrow> nat \<Rightarrow> real" where
  "gauss_w sigma kHalf i = exp (- (real_of_int ((int i - kHalf) * (int i - kHalf))) / (2 * sigma * sigma))"


subsection \<open>Numbers, typed arrays and the heap\<close>

text \<open>
  A JavaScript number is a real or \<^verbatim>\<open>NaN\<close>.  Reading a typed array out of range yields
  \<^verbatim>\<open>undefined\<close>, which the code at once multiplies by a weight, giving \<^verbatim>\<open>NaN\<close>; the
  read is modelled as returning \<^verbatim>\<open>NaN\<close> directly.
\<close>

datatype jsnum = NaN | Num real

fun jsadd :: "jsnum \<Rightarrow> jsnum \<Rightarrow> jsnum" where
  "jsadd (Num a) (Num b) = Num (a + b)"
| "jsadd _ _ = NaN"

fun jsmul :: "jsnum \<Rightarrow> jsnum \<Rightarrow> jsnum" where
  "jsmul (Num a) (Num b) = Num (a * b)"
| "jsmul _ _ = NaN"

definition rd :: "jsnum list \<Rightarrow> int \<Rightarrow> jsnum" where
  "rd buf idx = (if 0 \<le> idx \<and> nat idx < length buf then buf ! nat idx else NaN)"

definition rdk :: "real list \<Rightarrow> int \<Rightarrow> jsnum" where
  "rdk ker j = (if 0 \<le> j \<and> nat j < length ker then Num (ker ! nat j) else NaN)"

text \<open>
  Storing into a \<^verbatim>\<open>Uint8ClampedArray\<close> applies the language's ToUint8Clamp conversion:
  \<^verbatim>\<open>NaN\<close> becomes 0, the value is clamped to 0..255 and rounded to the nearest integer,
  ties to even.  Storing into a \<^verbatim>\<open>Float32Array\<close> keeps the value (single-precision rounding
  is not modelled).
\<close>

definition toUint8Clamp :: "jsnum \<Rightarrow> jsnum" where
  "toUint8Clamp v =
     (case v of
        NaN \<Rightarrow> Num 0
      | Num x \<Rightarrow>
          if x \<le> 0 then Num 0
          else if 255 \<le> x then Num 255
          else let f = \<lfloor>x\<rfloor> in
            if real_of_int f + 1 / 2 < x then Num (real_of_int (f + 1))
            else if x < real_of_int f + 1 / 2 then Num (real_of_int f)
            else if even f then Num (real_of_int f)
            else Num (real_of_int (f + 1)))"

text \<open>
  Buffers live in a heap, a list of arrays addressed by position, so that the code's writes
  are writes to an address and aliasing is visible.  \<^verbatim>\<open>new Float32Array(n)\<close> and
  \<^verbatim>\<open>new Uint8ClampedArray(n)\<close> append a zero-filled array and return its address.  The
  kernel array alone is kept as a value: it is local to the call, filled before any buffer is
  touched, and only read afterwards.
\<close>

type_synonym heap = "jsnum list list"

definition deref :: "heap \<Rightarrow> nat \<Rightarrow> jsnum list" where
  "deref H a = (if a < length H then H ! a else [])"

definition alloc :: "heap \<Rightarrow> nat \<Rightarrow> heap \<times> nat" where
  "alloc H n = (H @ [replicate n (Num 0)], length H)"

text \<open>A typed-array store \<^verbatim>\<open>buf[i] = v\<close>; out of range it does nothing, as in JavaScript.\<close>

definition wr :: "heap \<Rightarrow> nat \<Rightarrow> nat \<Rightarrow> jsnum \<Rightarrow> heap" where
  "wr H a i v = (if a < length H then H[a := (H ! a)[i := v]] else H)"

subsection \<open>The two passes (lines 53-86)\<close>

type_synonym rgba = "jsnum \<times> jsnum \<times> jsnum \<times> jsnum"

text \<open>Body of the inner loop of the horizontal pass (lines 57-63).\<close>

definition h_step :: "jsnum list \<Rightarrow> real list \<Rightarrow> int \<Rightarrow> nat \<Rightarrow> nat \<Rightarrow> nat \<Rightarrow> rgba \<Rightarrow> int \<Rightarrow> rgba" where
  "h_step src ker kHalf w row col acc k =
     (case acc of (r, g, b, a) \<Rightarrow>
        let sc = min (int w - 1) (max 0 (int col + k));
            idx = (int row * int w + sc) * 4;
            wt = rdk ker (k + kHalf)
        in (jsadd r (jsmul (rd src idx) wt),
            jsadd g (jsmul (rd src (idx + 1)) wt),
            jsadd b (jsmul (rd src (idx + 2)) wt),
            jsadd a (jsmul (rd src (idx + 3)) wt)))"

text \<open>One pixel of the horizontal pass (lines 55-66): accumulate, then store into \<^verbatim>\<open>tmp\<close>.\<close>

definition h_pixel :: "real list \<Rightarrow> int \<Rightarrow> nat \<Rightarrow> nat \<Rightarrow> nat \<Rightarrow> heap \<Rightarrow> nat \<Rightarrow> nat \<Rightarrow> heap" where
  "h_pixel ker kHalf w src tmp H row col =
     (case foldl (h_step (deref H src) ker kHalf w row col) (Num 0, Num 0, Num 0, Num 0) [- kHalf..kHalf] of
        (r, g, b, a) \<Rightarrow>
          let oi = (row * w + col) * 4
          in wr (wr (wr (wr H tmp oi r) tmp (oi + 1) g) tmp (oi + 2) b) tmp (oi + 3) a)"

definition h_pass :: "real list \<Rightarrow> int \<Rightarrow> nat \<Rightarrow> nat \<Rightarrow> nat \<Rightarrow> nat \<Rightarrow> heap \<Rightarrow> heap" where
  "h_pass ker kHalf w h src tmp H =
     foldl (\<lambda>H row. foldl (\<lambda>H col. h_pixel ker kHalf w src tmp H row col) H [0..<w]) H [0..<h]"

text \<open>Body of the inner loop of the vertical pass (lines 75-81).\<close>

definition v_step :: "jsnum list \<Rightarrow> real list \<Rightarrow> int \<Rightarrow> nat \<Rightarrow> nat \<Rightarrow> nat \<Rightarrow> nat \<Rightarrow> rgba \<Rightarrow> int \<Rightarrow> rgba" where
  "v_step tmp ker kHalf w h row col acc k =
     (case acc of (r, g, b, a) \<Rightarrow>
        let sr = min (int h - 1) (max 0 (int row + k));
            idx = (sr * int w + int col) * 4;
            wt = rdk ker (k + kHalf)
        in (jsadd r (jsmul (rd tmp idx) wt),
            jsadd g (jsmul (rd tmp (idx + 1)) wt),
            jsadd b (jsmul (rd tmp (idx + 2)) wt),
            jsadd a (jsmul (rd tmp (idx + 3)) wt)))"

text \<open>One pixel of the vertical pass (lines 73-84): the store into \<^verbatim>\<open>out\<close> clamps to a byte.\<close>

definition v_pixel :: "real list \<Rightarrow> int \<Rightarrow> nat \<Rightarrow> nat \<Rightarrow> nat \<Rightarrow> nat \<Rightarrow> heap \<Rightarrow> nat \<Rightarrow> nat \<Rightarrow> heap" where
  "v_pixel ker kHalf w h tmp out H col row =
     (case foldl (v_step (deref H tmp) ker kHalf w h row col) (Num 0, Num 0, Num 0, Num 0) [- kHalf..kHalf] of
        (r, g, b, a) \<Rightarrow>
          let oi = (row * w + col) * 4
          in wr (wr (wr (wr H out oi (toUint8Clamp r)) out (oi + 1) (toUint8Clamp g))
                     out (oi + 2) (toUint8Clamp b)) out (oi + 3) (toUint8Clamp a))"

definition v_pass :: "real list \<Rightarrow> int \<Rightarrow> nat \<Rightarrow> nat \<Rightarrow> nat \<Rightarrow> nat \<Rightarrow> heap \<Rightarrow> heap" where
  "v_pass ker kHalf w h tmp out H =
     foldl (\<lambda>H col. foldl (\<lambda>H row. v_pixel ker kHalf w h tmp out H col row) H [0..<h]) H [0..<w]"

text \<open>
  \<^verbatim>\<open>separableGaussianBlur(src, w, h, radius)\<close>: \<^verbatim>\<open>src\<close> is the address of the source array;
  the result is the new heap and the address of the returned array.
\<close>

definition separableGaussianBlur :: "heap \<Rightarrow> nat \<Rightarrow> nat \<Rightarrow> nat \<Rightarrow> real \<Rightarrow> heap \<times> nat" where
  "separableGaussianBlur H src w h radius =
     (let sigma = sigma_of radius;
          kHalf = kHalf_of radius;
          kLen = kLen_of radius;
          ker = build_kernel sigma kHalf kLen;
          (H1, tmp) = alloc H (length (deref H src));
          (H2, out) = alloc H1 (length (deref H src));
          H3 = h_pass ker kHalf w h src tmp H2;
          H4 = v_pass ker kHalf w h tmp out H3
      in (H4, out))"

text \<open>The contents of the array returned for a source array held alone in the heap.\<close>

definition blur_data :: "jsnum list \<Rightarrow> nat \<Rightarrow> nat \<Rightarrow> real \<Rightarrow> jsnum list" where
  "blur_data src w h radius =
     (case separableGaussianBlur [src] 0 w h radius of (H', out) \<Rightarrow> deref H' out)"

text \<open>
  The weighted sum of one channel over the kernel window, in loop order; \<open>f k\<close> is the
  sample taken at offset \<open>k\<close>.
\<close>

definition conv :: "real list \<Rightarrow> int \<Rightarrow> (int \<Rightarrow> jsnum) \<Rightarrow> jsnum" where
  "conv ker kHalf f = foldl (\<lambda>acc k. jsadd acc (jsmul (f k) (rdk ker (k + kHalf)))) (Num 0) [- kHalf..kHalf]"

text \<open>Clamp-to-edge sampling positions, as the claims word them.\<close>

definition clamp_index :: "nat \<Rightarrow> int \<Rightarrow> int" where
  "clamp_index n i = (if i < 0 then 0 else if int n - 1 < i then int n - 1 else i)"

subsection \<open>The pipeline \<^verbatim>\<open>blurFaces\<close> (lines 116-198)\<close>

definition BLUR_RADIUS :: real where
  "BLUR_RADIUS = 15"

definition MIN_CONFIDENCE :: real where
  "MIN_CONFIDENCE = 0.4"

definition FEATHER_RADIUS :: real where
  "FEATHER_RADIUS = 34"

text \<open>
  The canvas library is outside the repository.  A canvas is modelled by its size and the
  drawing calls made on its context, in order.  What the library rasterises for a path is
  not modelled, and reading pixels back (\<^verbatim>\<open>getImageData(0, 0, w, h).data\<close>) is a parameter
  of the pipeline; only the compositing calls are given a pixel-level meaning, further below.
\<close>

datatype 'i cmd =
    DrawImage "'i drawable" real real
  | ClearRect real real real real
  | FillStyle string
  | BeginPath
  | Ellipse real real real real real real real
  | Fill
  | PutImageData "jsnum list" nat nat real real
  | GlobalCompositeOperation string
and 'i drawable =
    Image 'i
  | Canvas nat nat "'i cmd list"

definition createCanvas :: "nat \<Rightarrow> nat \<Rightarrow> 'i drawable" where
  "createCanvas w h = Canvas w h []"

fun ctx_call :: "'i drawable \<Rightarrow> 'i cmd \<Rightarrow> 'i drawable" where
  "ctx_call (Canvas w h cs) c = Canvas w h (cs @ [c])"
| "ctx_call (Image i) c = Image i"

record box =
  box_x :: real
  box_y :: real
  box_width :: real
  box_height :: real

record detection =
  det_box :: box
  det_score :: real

text \<open>Lines 157-162: the padded box, clipped to the canvas.\<close>

definition expand_box :: "nat \<Rightarrow> nat \<Rightarrow> box \<Rightarrow> real \<times> real \<times> real \<times> real" where
  "expand_box w h bx =
     (let padX = box_width bx * 0.2;
          padY = box_height bx * 0.2;
          fx = max 0 (box_x bx - padX);
          fy = max 0 (box_y bx - padY * 1.5);
          fw = min (real w - fx) (box_width bx + padX * 2);
          fh = min (real h - fy) (box_height bx + padY * 2.5)
      in (fx, fy, fw, fh))"

text \<open>Lines 165-171: the mask canvas of one region.\<close>

definition mask_canvas :: "nat \<Rightarrow> nat \<Rightarrow> box \<Rightarrow> 'i drawable" where
  "mask_canvas w h bx =
     (case expand_box w h bx of (fx, fy, fw, fh) \<Rightarrow>
        foldl ctx_call (createCanvas w h)
          [ClearRect 0 0 (real w) (real h),
           FillStyle ''#fff'',
           BeginPath,
           Ellipse (fx + fw / 2) (fy + fh / 2) (fw / 2) (fh / 2) 0 0 (pi * 2),
           Fill])"

text \<open>
  The state that the region loop threads: the main canvas, and the radii of the calls of
  \<^verbatim>\<open>separableGaussianBlur\<close> made so far (a record of the calls, kept for the statements
  about which stages run).
\<close>

record 'i pipeline =
  main_canvas :: "'i drawable"
  blur_calls :: "real list"

text \<open>Lines 153-192: the body of \<^verbatim>\<open>detections.forEach\<close>.\<close>

definition blur_face ::
  "('i drawable \<Rightarrow> jsnum list) \<Rightarrow> nat \<Rightarrow> nat \<Rightarrow> 'i drawable \<Rightarrow> 'i pipeline \<Rightarrow> detection \<Rightarrow> 'i pipeline" where
  "blur_face getImageData w h blurredCanvas st det =
     (let maskCanvas = mask_canvas w h (det_box det);
          maskData = getImageData maskCanvas;
          featheredData = blur_data maskData w h FEATHER_RADIUS;
          featherCanvas = ctx_call (createCanvas w h) (PutImageData featheredData w h 0 0);
          patchCanvas = foldl ctx_call (createCanvas w h)
            [DrawImage blurredCanvas 0 0,
             GlobalCompositeOperation ''destination-in'',
             DrawImage featherCanvas 0 0,
             GlobalCompositeOperation ''source-over'']
      in \<lparr>main_canvas = ctx_call (main_canvas st) (DrawImage patchCanvas 0 0),
          blur_calls = blur_calls st @ [FEATHER_RADIUS]\<rparr>)"

text \<open>
  Lines 116-198, from the loaded image on: \<open>img\<close> is the decoded image, \<open>w\<close> and \<open>h\<close> its
  size, \<open>detections\<close> the detector's answer.  The result holds the canvas that is encoded
  and written to the output file.
\<close>

definition decoded_canvas :: "'i \<Rightarrow> nat \<Rightarrow> nat \<Rightarrow> 'i drawable" where
  "decoded_canvas img w h = ctx_call (createCanvas w h) (DrawImage (Image img) 0 0)"

definition blurFaces ::
  "('i drawable \<Rightarrow> jsnum list) \<Rightarrow> 'i \<Rightarrow> nat \<Rightarrow> nat \<Rightarrow> detection list \<Rightarrow> 'i pipeline" where
  "blurFaces getImageData img w h detections =
     (let canvas = decoded_canvas img w h
      in if length detections = 0
         then \<lparr>main_canvas = canvas, blur_calls = []\<rparr>
         else
           let blurredCanvas0 = ctx_call (createCanvas w h) (DrawImage (Image img) 0 0);
               srcData = getImageData blurredCanvas0;
               gaussData = blur_data srcData w h BLUR_RADIUS;
               blurredCanvas = ctx_call blurredCanvas0 (PutImageData gaussData w h 0 0)
           in foldl (blur_face getImageData w h blurredCanvas)
                \<lparr>main_canvas = canvas, blur_calls = [BLUR_RADIUS]\<rparr> detections)"

text \<open>The points covered by the ellipse path of given centre and radii (rotation 0).\<close>

definition in_ellipse :: "real \<Rightarrow> real \<Rightarrow> real \<Rightarrow> real \<Rightarrow> real \<Rightarrow> real \<Rightarrow> bool" where
  "in_ellipse cx cy rx ry px py =
     (0 < rx \<and> 0 < ry \<and> ((px - cx) / rx)\<^sup>2 + ((py - cy) / ry)\<^sup>2 \<le> 1)"

subsection \<open>Canvas compositing (lines 181-189)\<close>

text \<open>
  The pixel-level meaning of the canvas calls that the compositing step makes is that of the
  Canvas 2D standard, which is what the canvas library implements: a canvas pixel is a colour
  premultiplied by its opacity, all four components in \<open>[0, 1]\<close>; drawing a source pixel
  \<open>s\<close> onto a destination pixel \<open>d\<close> under \<^verbatim>\<open>source-over\<close> gives
  \<open>s + d * (1 - alpha s)\<close>, and under \<^verbatim>\<open>destination-in\<close> it gives \<open>d * alpha s\<close>.
  The arithmetic is exact; the library's 8-bit storage of canvas pixels is not modelled.
\<close>

type_synonym ppx = "real \<times> real \<times> real \<times> real"

definition px_alpha :: "ppx \<Rightarrow> real" where
  "px_alpha p = (case p of (r, g, b, a) \<Rightarrow> a)"

definition px_scale :: "real \<Rightarrow> ppx \<Rightarrow> ppx" where
  "px_scale k p = (case p of (r, g, b, a) \<Rightarrow> (k * r, k * g, k * b, k * a))"

definition px_add :: "ppx \<Rightarrow> ppx \<Rightarrow> ppx" where
  "px_add p q = (case p of (r, g, b, a) \<Rightarrow> case q of (r', g', b', a') \<Rightarrow> (r + r', g + g', b + b', a + a'))"










subsection \<open>Notions used in the statements and proofs\<close>

text \<open>The index of the first channel of the sample at offset \<open>k\<close> in the horizontal pass (lines 57-58).\<close>

definition h_idx :: "nat \<Rightarrow> nat \<Rightarrow> nat \<Rightarrow> int \<Rightarrow> int" where
  "h_idx w row col k = (int row * int w + min (int w - 1) (max 0 (int col + k))) * 4"

text \<open>The index of the first channel of the sample at offset \<open>k\<close> in the vertical pass (lines 75-76).\<close>

definition v_idx :: "nat \<Rightarrow> nat \<Rightarrow> nat \<Rightarrow> nat \<Rightarrow> int \<Rightarrow> int" where
  "v_idx w h row col k = (min (int h - 1) (max 0 (int row + k)) * int w + int col) * 4"

text \<open>Channel \<open>c\<close> (0 to 3) of a four-channel value.\<close>

definition chan :: "rgba \<Rightarrow> nat \<Rightarrow> jsnum" where
  "chan p c = (case p of (r, g, b, a) \<Rightarrow> [r, g, b, a] ! c)"

text \<open>The four stores of one pixel (lines 66 and 84), as one update of the array.\<close>

definition write4 :: "nat \<Rightarrow> rgba \<Rightarrow> jsnum list \<Rightarrow> jsnum list" where
  "write4 oi p buf = (case p of (r, g, b, a) \<Rightarrow> buf[oi := r, oi + 1 := g, oi + 2 := b, oi + 3 := a])"

text \<open>The four channel sums of one pixel.\<close>

definition conv4 :: "real list \<Rightarrow> int \<Rightarrow> jsnum list \<Rightarrow> (int \<Rightarrow> int) \<Rightarrow> rgba" where
  "conv4 ker kHalf buf idx =
     (conv ker kHalf (\<lambda>k. rd buf (idx k)),
      conv ker kHalf (\<lambda>k. rd buf (idx k + 1)),
      conv ker kHalf (\<lambda>k. rd buf (idx k + 2)),
      conv ker kHalf (\<lambda>k. rd buf (idx k + 3)))"

text \<open>A sequence of pixel stores: for each \<open>p\<close> of \<open>ps\<close> in order, the value \<open>V p\<close> at pixel \<open>W p\<close>.\<close>

definition paint :: "('x \<Rightarrow> nat) \<Rightarrow> ('x \<Rightarrow> rgba) \<Rightarrow> 'x list \<Rightarrow> jsnum list \<Rightarrow> jsnum list" where
  "paint W V ps buf = foldl (\<lambda>b p. write4 (W p * 4) (V p) b) buf ps"

text \<open>The conversion of the four stores into \<^verbatim>\<open>out\<close>.\<close>

definition clamp4 :: "rgba \<Rightarrow> rgba" where
  "clamp4 = map_prod toUint8Clamp (map_prod toUint8Clamp (map_prod toUint8Clamp toUint8Clamp))"

text \<open>The contents of \<^verbatim>\<open>tmp\<close> after the horizontal pass, as a function of the source contents.\<close>

definition tmp_of :: "real \<Rightarrow> nat \<Rightarrow> nat \<Rightarrow> jsnum list \<Rightarrow> jsnum list" where
  "tmp_of radius w h src =
     paint (\<lambda>p. fst p * w + snd p)
       (\<lambda>p. conv4 (kernel_of radius) (kHalf_of radius) src (h_idx w (fst p) (snd p)))
       (List.product [0..<h] [0..<w]) (replicate (length src) (Num 0))"

text \<open>The contents of \<^verbatim>\<open>out\<close> after the vertical pass, as a function of the source contents.\<close>

definition out_of :: "real \<Rightarrow> nat \<Rightarrow> nat \<Rightarrow> jsnum list \<Rightarrow> jsnum list" where
  "out_of radius w h src =
     paint (\<lambda>p. snd p * w + fst p)
       (\<lambda>p. clamp4 (conv4 (kernel_of radius) (kHalf_of radius) (tmp_of radius w h src)
                       (v_idx w h (snd p) (fst p))))
       (List.product [0..<w] [0..<h]) (replicate (length src) (Num 0))"


text \<open>The RGBA buffer of a \<open>w\<close> by \<open>h\<close> image all of whose pixels have the colour \<open>colour\<close> (four bytes).\<close>

definition uniform_buffer :: "nat \<Rightarrow> nat \<Rightarrow> nat list \<Rightarrow> jsnum list" where
  "uniform_buffer w h colour = map (\<lambda>i. Num (real (colour ! (i mod 4)))) [0..<w * h * 4]"

text \<open>The opacity values of a mask buffer, one per pixel (the alpha channel).\<close>

definition alphas :: "jsnum list \<Rightarrow> jsnum list" where
  "alphas buf = map (\<lambda>p. buf ! (p * 4 + 3)) [0..<length buf div 4]"


subsection \<open>Facts about the kernel\<close>

lemma sigma_of_ge_1: "1 \<le> sigma_of radius"
  by (simp add: sigma_of_def)

lemma kHalf_of_ge_3: "3 \<le> kHalf_of radius"
proof -
  have "(3::real) \<le> sigma_of radius * 3"
    using sigma_of_ge_1 [of radius] by simp
  then have "\<lceil>3::real\<rceil> \<le> \<lceil>sigma_of radius * 3\<rceil>"
    by (rule ceiling_mono)
  then show ?thesis by (simp add: kHalf_of_def)
qed

lemma kLen_of_pos: "7 \<le> kLen_of radius"
  using kHalf_of_ge_3 [of radius] by (simp add: kLen_of_def)

lemma gauss_w_pos: "0 < gauss_w sigma kHalf i"
  by (simp add: gauss_w_def)

lemma kernel_fill_loop:
  "n \<le> length ker \<Longrightarrow>
   foldl (kernel_fill sigma kHalf) (ker, s) [0..<n] =
     (map (\<lambda>i. if i < n then gauss_w sigma kHalf i else ker ! i) [0..<length ker],
      s + (\<Sum>i<n. gauss_w sigma kHalf i))"
proof (induction n)
  case 0
  show ?case by (simp add: map_nth)
next
  case (Suc n)
  then have n: "n < length ker" by simp
  have "(map (\<lambda>i. if i < n then gauss_w sigma kHalf i else ker ! i) [0..<length ker])
          [n := gauss_w sigma kHalf n] =
        map (\<lambda>i. if i < Suc n then gauss_w sigma kHalf i else ker ! i) [0..<length ker]"
    using n by (auto intro!: nth_equalityI simp: nth_list_update)
  then show ?case
    using Suc n by (simp add: kernel_fill_def Let_def gauss_w_def)
qed

lemma kernel_norm_loop:
  "n \<le> length ker \<Longrightarrow>
   foldl (kernel_norm s) ker [0..<n] =
     map (\<lambda>i. if i < n then ker ! i / s else ker ! i) [0..<length ker]"
proof (induction n)
  case 0
  show ?case by (simp add: map_nth)
next
  case (Suc n)
  then have n: "n < length ker" by simp
  have "(map (\<lambda>i. if i < n then ker ! i / s else ker ! i) [0..<length ker])
          [n := ker ! n / s] =
        map (\<lambda>i. if i < Suc n then ker ! i / s else ker ! i) [0..<length ker]"
    using n by (auto intro!: nth_equalityI simp: nth_list_update)
  then show ?case
    using Suc n by (simp add: kernel_norm_def)
qed

text \<open>Closed form of the kernel: each weight is the Gaussian value over the sum of all of them.\<close>

lemma build_kernel_closed:
  "kernel_of radius =
     map (\<lambda>i. gauss_w (sigma_of radius) (kHalf_of radius) i /
               (\<Sum>j<nat (kLen_of radius). gauss_w (sigma_of radius) (kHalf_of radius) j))
         [0..<nat (kLen_of radius)]"
  by (simp add: kernel_of_def build_kernel_def Let_def kernel_fill_loop kernel_norm_loop)

lemma length_build_kernel: "length (kernel_of radius) = nat (kLen_of radius)"
  by (simp add: build_kernel_closed)

lemma gauss_sum_pos: "0 < n \<Longrightarrow> 0 < (\<Sum>j<n. gauss_w sigma kHalf j)"
  by (rule sum_pos) (auto simp: gauss_w_pos)

lemma build_kernel_nth:
  "i < nat (kLen_of radius) \<Longrightarrow>
   kernel_of radius ! i =
     gauss_w (sigma_of radius) (kHalf_of radius) i /
       (\<Sum>j<nat (kLen_of radius). gauss_w (sigma_of radius) (kHalf_of radius) j)"
  by (simp add: build_kernel_closed)

lemma sum_list_build_kernel: "sum_list (kernel_of radius) = 1"
proof -
  let ?n = "nat (kLen_of radius)"
  let ?g = "gauss_w (sigma_of radius) (kHalf_of radius)"
  have pos: "0 < (\<Sum>j<?n. ?g j)"
    using kLen_of_pos [of radius] by (intro gauss_sum_pos) simp
  have "sum_list (kernel_of radius) = (\<Sum>i<?n. ?g i / (\<Sum>j<?n. ?g j))"
    by (simp add: build_kernel_closed sum_list_sum_nth atLeast0LessThan)
  also have "\<dots> = (\<Sum>i<?n. ?g i) / (\<Sum>j<?n. ?g j)"
    by (simp add: sum_divide_distrib [symmetric])
  also have "\<dots> = 1"
    using pos by simp
  finally show ?thesis .
qed

lemma gauss_w_mirror:
  "i < nat (2 * kHalf + 1) \<Longrightarrow> gauss_w sigma kHalf (nat (2 * kHalf + 1) - 1 - i) = gauss_w sigma kHalf i"
proof -
  assume i: "i < nat (2 * kHalf + 1)"
  then have "int (nat (2 * kHalf + 1) - 1 - i) - kHalf = - (int i - kHalf)"
    by linarith
  then have "(int (nat (2 * kHalf + 1) - 1 - i) - kHalf) * (int (nat (2 * kHalf + 1) - 1 - i) - kHalf) =
             (int i - kHalf) * (int i - kHalf)"
    by (simp only: minus_mult_minus)
  then show ?thesis
    unfolding gauss_w_def by (rule arg_cong)
qed

lemma build_kernel_symmetric:
  assumes "i < length (kernel_of radius)"
  shows "kernel_of radius ! i = kernel_of radius ! (length (kernel_of radius) - 1 - i)"
proof -
  let ?n = "nat (kLen_of radius)"
  have i: "i < ?n" using assms by (simp add: length_build_kernel)
  then have j: "?n - 1 - i < ?n" by linarith
  have n: "?n = nat (2 * kHalf_of radius + 1)"
    by (simp add: kLen_of_def mult.commute)
  have "gauss_w (sigma_of radius) (kHalf_of radius) (?n - 1 - i) =
        gauss_w (sigma_of radius) (kHalf_of radius) i"
    using gauss_w_mirror [of i "kHalf_of radius" "sigma_of radius"] i n by simp
  then show ?thesis
    using i j by (simp add: length_build_kernel build_kernel_nth)
qed

lemma kHalf_of_mono: "r1 \<le> r2 \<Longrightarrow> kHalf_of r1 \<le> kHalf_of r2"
  unfolding kHalf_of_def sigma_of_def
  by (intro ceiling_mono) (simp add: max.coboundedI2)


subsection \<open>Facts about the padded box\<close>

lemma expand_box_bounds:
  assumes "expand_box w h bx = (fx, fy, fw, fh)"
  shows "0 \<le> fx" and "0 \<le> fy" and "fx + fw \<le> real w" and "fy + fh \<le> real h"
  using assms by (auto simp: expand_box_def Let_def)

lemma in_ellipse_extent:
  assumes "in_ellipse cx cy rx ry px py"
  shows "cx - rx \<le> px \<and> px \<le> cx + rx \<and> cy - ry \<le> py \<and> py \<le> cy + ry"
proof -
  have rx: "0 < rx" and ry: "0 < ry"
    and le: "((px - cx) / rx)\<^sup>2 + ((py - cy) / ry)\<^sup>2 \<le> 1"
    using assms by (simp_all add: in_ellipse_def)
  have "((px - cx) / rx)\<^sup>2 \<le> 1"
    using le zero_le_power2 [of "(py - cy) / ry"] by linarith
  then have "\<bar>(px - cx) / rx\<bar> \<le> 1"
    using abs_le_square_iff [of "(px - cx) / rx" 1] by simp
  then have x: "\<bar>px - cx\<bar> \<le> rx"
    using rx by (simp add: field_simps)
  have "((py - cy) / ry)\<^sup>2 \<le> 1"
    using le zero_le_power2 [of "(px - cx) / rx"] by linarith
  then have "\<bar>(py - cy) / ry\<bar> \<le> 1"
    using abs_le_square_iff [of "(py - cy) / ry" 1] by simp
  then have y: "\<bar>py - cy\<bar> \<le> ry"
    using ry by (simp add: field_simps)
  from x y show ?thesis by linarith
qed

subsection \<open>Facts about the two passes\<close>

lemma h_step_fold:
  "foldl (h_step src ker kHalf w row col) (r, g, b, a) ks =
     (foldl (\<lambda>acc k. jsadd acc (jsmul (rd src (h_idx w row col k)) (rdk ker (k + kHalf)))) r ks,
      foldl (\<lambda>acc k. jsadd acc (jsmul (rd src (h_idx w row col k + 1)) (rdk ker (k + kHalf)))) g ks,
      foldl (\<lambda>acc k. jsadd acc (jsmul (rd src (h_idx w row col k + 2)) (rdk ker (k + kHalf)))) b ks,
      foldl (\<lambda>acc k. jsadd acc (jsmul (rd src (h_idx w row col k + 3)) (rdk ker (k + kHalf)))) a ks)"
  by (induction ks arbitrary: r g b a) (simp_all add: h_step_def h_idx_def Let_def)

lemma v_step_fold:
  "foldl (v_step tmp ker kHalf w h row col) (r, g, b, a) ks =
     (foldl (\<lambda>acc k. jsadd acc (jsmul (rd tmp (v_idx w h row col k)) (rdk ker (k + kHalf)))) r ks,
      foldl (\<lambda>acc k. jsadd acc (jsmul (rd tmp (v_idx w h row col k + 1)) (rdk ker (k + kHalf)))) g ks,
      foldl (\<lambda>acc k. jsadd acc (jsmul (rd tmp (v_idx w h row col k + 2)) (rdk ker (k + kHalf)))) b ks,
      foldl (\<lambda>acc k. jsadd acc (jsmul (rd tmp (v_idx w h row col k + 3)) (rdk ker (k + kHalf)))) a ks)"
  by (induction ks arbitrary: r g b a) (simp_all add: v_step_def v_idx_def Let_def)

lemma h_acc_conv4:
  "foldl (h_step src ker kHalf w row col) (Num 0, Num 0, Num 0, Num 0) [- kHalf..kHalf] =
     conv4 ker kHalf src (h_idx w row col)"
  by (simp add: h_step_fold conv4_def conv_def)

lemma v_acc_conv4:
  "foldl (v_step tmp ker kHalf w h row col) (Num 0, Num 0, Num 0, Num 0) [- kHalf..kHalf] =
     conv4 ker kHalf tmp (v_idx w h row col)"
  by (simp add: v_step_fold conv4_def conv_def)

lemma chan_conv4:
  "c < 4 \<Longrightarrow> chan (conv4 ker kHalf buf idx) c = conv ker kHalf (\<lambda>k. rd buf (idx k + int c))"
proof -
  assume "c < 4"
  then have "c = 0 \<or> c = 1 \<or> c = 2 \<or> c = 3" by linarith
  then show ?thesis
    by (auto simp: chan_def conv4_def)
qed

lemma length_wr [simp]: "length (wr H a i v) = length H"
  by (simp add: wr_def)

lemma deref_wr: "deref (wr H a i v) b = (if b = a then (deref H a)[i := v] else deref H b)"
  by (simp add: wr_def deref_def)

lemma wr4_eq:
  "t < length H \<Longrightarrow>
   wr (wr (wr (wr H t oi r) t (oi + 1) g) t (oi + 2) b) t (oi + 3) a =
     H[t := write4 oi (r, g, b, a) (H ! t)]"
  by (simp add: wr_def write4_def)

lemma h_pixel_eq:
  "t < length H \<Longrightarrow>
   h_pixel ker kHalf w s t H row col =
     H[t := write4 ((row * w + col) * 4) (conv4 ker kHalf (deref H s) (h_idx w row col)) (H ! t)]"
  unfolding h_pixel_def h_acc_conv4 conv4_def Let_def prod.case by (rule wr4_eq)

lemma v_pixel_eq:
  "t < length H \<Longrightarrow>
   v_pixel ker kHalf w h s t H col row =
     H[t := write4 ((row * w + col) * 4)
              (map_prod toUint8Clamp (map_prod toUint8Clamp (map_prod toUint8Clamp toUint8Clamp))
                 (conv4 ker kHalf (deref H s) (v_idx w h row col))) (H ! t)]"
  unfolding v_pixel_def v_acc_conv4 conv4_def Let_def prod.case map_prod_simp by (rule wr4_eq)

lemma foldl_upd_sim:
  assumes st: "s \<noteq> t"
    and step: "\<And>H x. t < length H \<Longrightarrow> F H x = H[t := G (deref H s) x (H ! t)]"
  shows "t < length H \<Longrightarrow> foldl F H xs = H[t := foldl (\<lambda>b x. G (deref H s) x b) (H ! t) xs]"
proof (induction xs arbitrary: H)
  case Nil
  then show ?case by simp
next
  case (Cons x xs)
  let ?H' = "H[t := G (deref H s) x (H ! t)]"
  have t': "t < length ?H'" using Cons.prems by simp
  have d: "deref ?H' s = deref H s"
    using st by (simp add: deref_def)
  have "foldl F H (x # xs) = foldl F ?H' xs"
    using step [OF Cons.prems] by simp
  also have "\<dots> = ?H'[t := foldl (\<lambda>b x. G (deref ?H' s) x b) (?H' ! t) xs]"
    by (rule Cons.IH [OF t'])
  also have "\<dots> = H[t := foldl (\<lambda>b x. G (deref H s) x b) (H ! t) (x # xs)]"
    using Cons.prems by (simp add: d)
  finally show ?case .
qed

lemma foldl_product:
  "foldl (\<lambda>b x. foldl (\<lambda>b y. f x y b) b ys) b xs =
   foldl (\<lambda>b p. f (fst p) (snd p) b) b (List.product xs ys)"
  by (induction xs arbitrary: b) (simp_all add: foldl_map)

lemma h_pass_eq:
  assumes "s \<noteq> t" and "t < length H"
  shows "h_pass ker kHalf w h s t H =
     H[t := paint (\<lambda>p. fst p * w + snd p)
                  (\<lambda>p. conv4 ker kHalf (deref H s) (h_idx w (fst p) (snd p)))
                  (List.product [0..<h] [0..<w]) (H ! t)]"
proof -
  have inner: "foldl (\<lambda>H col. h_pixel ker kHalf w s t H row col) H [0..<w] =
      H[t := foldl (\<lambda>b col. write4 ((row * w + col) * 4) (conv4 ker kHalf (deref H s) (h_idx w row col)) b)
                (H ! t) [0..<w]]"
    if "t < length H" for H row
    using assms(1) _ that
    by (rule foldl_upd_sim [where G = "\<lambda>src col b. write4 ((row * w + col) * 4) (conv4 ker kHalf src (h_idx w row col)) b"])
       (rule h_pixel_eq)
  have "h_pass ker kHalf w h s t H =
      H[t := foldl (\<lambda>b row. foldl (\<lambda>b col. write4 ((row * w + col) * 4)
                (conv4 ker kHalf (deref H s) (h_idx w row col)) b) b [0..<w]) (H ! t) [0..<h]]"
    unfolding h_pass_def using assms(1) _ assms(2)
    by (rule foldl_upd_sim [where G = "\<lambda>src row b. foldl (\<lambda>b col. write4 ((row * w + col) * 4)
                (conv4 ker kHalf src (h_idx w row col)) b) b [0..<w]"])
       (rule inner)
  then show ?thesis
    by (simp add: paint_def foldl_product)
qed

lemma v_pass_eq:
  assumes "s \<noteq> t" and "t < length H"
  shows "v_pass ker kHalf w h s t H =
     H[t := paint (\<lambda>p. snd p * w + fst p)
                  (\<lambda>p. map_prod toUint8Clamp (map_prod toUint8Clamp (map_prod toUint8Clamp toUint8Clamp))
                          (conv4 ker kHalf (deref H s) (v_idx w h (snd p) (fst p))))
                  (List.product [0..<w] [0..<h]) (H ! t)]"
proof -
  let ?V = "\<lambda>src row col. map_prod toUint8Clamp (map_prod toUint8Clamp (map_prod toUint8Clamp toUint8Clamp))
                          (conv4 ker kHalf src (v_idx w h row col))"
  have inner: "foldl (\<lambda>H row. v_pixel ker kHalf w h s t H col row) H [0..<h] =
      H[t := foldl (\<lambda>b row. write4 ((row * w + col) * 4) (?V (deref H s) row col) b)
                (H ! t) [0..<h]]"
    if "t < length H" for H col
    using assms(1) _ that
    by (rule foldl_upd_sim [where G = "\<lambda>src row b. write4 ((row * w + col) * 4) (?V src row col) b"])
       (rule v_pixel_eq)
  have "v_pass ker kHalf w h s t H =
      H[t := foldl (\<lambda>b col. foldl (\<lambda>b row. write4 ((row * w + col) * 4)
                (?V (deref H s) row col) b) b [0..<h]) (H ! t) [0..<w]]"
    unfolding v_pass_def using assms(1) _ assms(2)
    by (rule foldl_upd_sim [where G = "\<lambda>src col b. foldl (\<lambda>b row. write4 ((row * w + col) * 4)
                (?V src row col) b) b [0..<h]"])
       (rule inner)
  then show ?thesis
    by (simp add: paint_def foldl_product)
qed

lemma length_write4 [simp]: "length (write4 oi p buf) = length buf"
  by (cases p) (simp add: write4_def)

lemma length_paint [simp]: "length (paint W V ps buf) = length buf"
  unfolding paint_def by (induction ps arbitrary: buf) simp_all

lemma write4_nth_other: "i div 4 \<noteq> q \<Longrightarrow> write4 (q * 4) p buf ! i = buf ! i"
proof -
  assume "i div 4 \<noteq> q"
  then have "i \<noteq> q * 4" "i \<noteq> q * 4 + 1" "i \<noteq> q * 4 + 2" "i \<noteq> q * 4 + 3"
    by auto
  then show ?thesis
    by (cases p) (simp add: write4_def)
qed

lemma write4_nth:
  assumes "c < 4" and "q * 4 + c < length buf"
  shows "write4 (q * 4) p buf ! (q * 4 + c) = chan p c"
proof -
  from assms(1) have "c = 0 \<or> c = 1 \<or> c = 2 \<or> c = 3" by linarith
  then show ?thesis
    using assms(2) by (cases p) (auto simp: write4_def chan_def nth_list_update)
qed

lemma paint_nth_other:
  "\<forall>p\<in>set ps. W p \<noteq> i div 4 \<Longrightarrow> paint W V ps buf ! i = buf ! i"
  unfolding paint_def
  by (induction ps arbitrary: buf) (simp_all add: write4_nth_other)

lemma paint_nth:
  assumes "distinct (map W ps)" and "p \<in> set ps" and "c < 4" and "W p * 4 + c < length buf"
  shows "paint W V ps buf ! (W p * 4 + c) = chan (V p) c"
  using assms
proof (induction ps arbitrary: buf)
  case Nil
  then show ?case by simp
next
  case (Cons x xs)
  have unfold: "paint W V (x # xs) buf = paint W V xs (write4 (W x * 4) (V x) buf)"
    by (simp add: paint_def)
  show ?case
  proof (cases "p \<in> set xs")
    case True
    then show ?thesis
      using Cons unfold by simp
  next
    case False
    then have px: "p = x" using Cons.prems(2) by simp
    have c4: "(W x * 4 + c) div 4 = W x"
      using Cons.prems(3) by simp
    have "W x \<notin> W ` set xs"
      using Cons.prems(1) by simp
    then have "\<forall>q\<in>set xs. W q \<noteq> (W x * 4 + c) div 4"
      unfolding c4 by (metis imageI)
    then have "paint W V xs (write4 (W x * 4) (V x) buf) ! (W x * 4 + c) =
               write4 (W x * 4) (V x) buf ! (W x * 4 + c)"
      by (rule paint_nth_other)
    then show ?thesis
      using Cons.prems(3,4) by (simp add: unfold px write4_nth)
  qed
qed

lemma pixel_index_inj:
  assumes "(c::nat) < w" and "c' < w" and "r * w + c = r' * w + c'"
  shows "r = r' \<and> c = c'"
proof -
  have "(r * w + c) div w = r" "(r * w + c) mod w = c"
    using assms(1) by simp_all
  moreover have "(r' * w + c') div w = r'" "(r' * w + c') mod w = c'"
    using assms(2) by simp_all
  ultimately show ?thesis
    using assms(3) by metis
qed

lemma distinct_rowmajor:
  "distinct (map (\<lambda>p. fst p * w + snd p) (List.product [0..<h] [0..<w]))"
  by (auto simp: distinct_map distinct_product inj_on_def dest: pixel_index_inj)

lemma distinct_colmajor:
  "distinct (map (\<lambda>p. snd p * w + fst p) (List.product [0..<w] [0..<h]))"
  by (auto simp: distinct_map distinct_product inj_on_def dest: pixel_index_inj)

lemma length_tmp_of [simp]: "length (tmp_of radius w h src) = length src"
  by (simp add: tmp_of_def)

lemma length_out_of [simp]: "length (out_of radius w h src) = length src"
  by (simp add: out_of_def)

lemma blur_eq:
  assumes "s < length H"
  shows "separableGaussianBlur H s w h radius =
           (H @ [tmp_of radius w h (deref H s), out_of radius w h (deref H s)], Suc (length H))"
proof -
  let ?n = "length (deref H s)"
  let ?Z = "replicate ?n (Num 0)"
  let ?H2 = "H @ [?Z, ?Z]"
  let ?t = "length H"
  let ?o = "Suc (length H)"
  let ?ker = "kernel_of radius"
  let ?kh = "kHalf_of radius"
  have d2: "deref ?H2 s = deref H s"
    using assms by (simp add: deref_def nth_append)
  have h3: "h_pass ?ker ?kh w h s ?t ?H2 = H @ [tmp_of radius w h (deref H s), ?Z]"
    using assms by (subst h_pass_eq) (simp_all add: d2 tmp_of_def nth_append)
  let ?H3 = "H @ [tmp_of radius w h (deref H s), ?Z]"
  have d3: "deref ?H3 ?t = tmp_of radius w h (deref H s)"
    by (simp add: deref_def nth_append)
  have h4: "v_pass ?ker ?kh w h ?t ?o ?H3 =
        H @ [tmp_of radius w h (deref H s), out_of radius w h (deref H s)]"
    by (subst v_pass_eq) (simp_all add: d3 out_of_def clamp4_def nth_append list_update_append)
  show ?thesis
    by (simp add: separableGaussianBlur_def alloc_def Let_def kernel_of_def [symmetric] h3 h4)
qed

lemma chan_clamp4: "c < 4 \<Longrightarrow> chan (clamp4 p) c = toUint8Clamp (chan p c)"
proof -
  assume "c < 4"
  then have "c = 0 \<or> c = 1 \<or> c = 2 \<or> c = 3" by linarith
  then show ?thesis
    by (cases p) (auto simp: chan_def clamp4_def)
qed

lemma tmp_of_nth:
  assumes "row < h" and "col < w" and "c < 4" and "(row * w + col) * 4 + c < length src"
  shows "tmp_of radius w h src ! ((row * w + col) * 4 + c) =
           conv (kernel_of radius) (kHalf_of radius) (\<lambda>k. rd src (h_idx w row col k + int c))"
proof -
  have m: "(row, col) \<in> set (List.product [0..<h] [0..<w])"
    using assms(1,2) by simp
  have "tmp_of radius w h src ! ((\<lambda>p. fst p * w + snd p) (row, col) * 4 + c) =
        chan ((\<lambda>p. conv4 (kernel_of radius) (kHalf_of radius) src (h_idx w (fst p) (snd p))) (row, col)) c"
    unfolding tmp_of_def using distinct_rowmajor m assms(3)
    by (rule paint_nth) (use assms(4) in simp)
  then show ?thesis
    using assms(3) by (simp add: chan_conv4)
qed

lemma out_of_nth:
  assumes "row < h" and "col < w" and "c < 4" and "(row * w + col) * 4 + c < length src"
  shows "out_of radius w h src ! ((row * w + col) * 4 + c) =
           toUint8Clamp (conv (kernel_of radius) (kHalf_of radius)
             (\<lambda>k. rd (tmp_of radius w h src) (v_idx w h row col k + int c)))"
proof -
  have m: "(col, row) \<in> set (List.product [0..<w] [0..<h])"
    using assms(1,2) by simp
  have "out_of radius w h src ! ((\<lambda>p. snd p * w + fst p) (col, row) * 4 + c) =
        chan ((\<lambda>p. clamp4 (conv4 (kernel_of radius) (kHalf_of radius) (tmp_of radius w h src)
                       (v_idx w h (snd p) (fst p)))) (col, row)) c"
    unfolding out_of_def using distinct_colmajor m assms(3)
    by (rule paint_nth) (use assms(4) in simp)
  then show ?thesis
    using assms(3) by (simp add: chan_clamp4 chan_conv4)
qed

lemma upto_map_upt: "[a..a + int n - 1] = map (\<lambda>i. a + int i) [0..<n]"
proof (induction n)
  case 0
  show ?case by simp
next
  case (Suc n)
  have "[a..a + int (Suc n) - 1] = [a..a + int n - 1] @ [a + int n]"
    using upto_rec2 [of a "a + int n"] by simp
  then show ?case
    using Suc by simp
qed

lemma window_as_map:
  assumes "0 \<le> kh"
  shows "[- kh..kh] = map (\<lambda>i. int i - kh) [0..<nat (2 * kh + 1)]"
proof -
  have e: "- kh + int (nat (2 * kh + 1)) - 1 = kh"
    using assms by simp
  have f: "(\<lambda>i. - kh + int i) = (\<lambda>i. int i - kh)"
    by (rule ext) simp
  show ?thesis
    using upto_map_upt [of "- kh" "nat (2 * kh + 1)"] unfolding e f .
qed

lemma weighted_fold:
  "n \<le> length ker \<Longrightarrow>
   foldl (\<lambda>acc i. jsadd acc (jsmul (Num (f i)) (rdk ker (int i)))) (Num a) [0..<n] =
     Num (a + (\<Sum>i<n. f i * ker ! i))"
  by (induction n) (simp_all add: rdk_def)

lemma conv_Num:
  assumes "0 \<le> kh" and "nat (2 * kh + 1) \<le> length ker"
  shows "conv ker kh (\<lambda>k. Num (g k)) = Num (\<Sum>i<nat (2 * kh + 1). g (int i - kh) * ker ! i)"
  using weighted_fold [OF assms(2), of "\<lambda>i. g (int i - kh)" 0]
  by (simp add: conv_def window_as_map [OF assms(1)] foldl_map)

lemma conv_const:
  assumes "0 \<le> kh" and "length ker = nat (2 * kh + 1)"
  shows "conv ker kh (\<lambda>k. Num v) = Num (v * sum_list ker)"
proof -
  have "(\<Sum>i<nat (2 * kh + 1). v * ker ! i) = v * sum_list ker"
    using assms(2) by (simp add: sum_list_sum_nth atLeast0LessThan sum_distrib_left)
  then show ?thesis
    using conv_Num [OF assms(1), of ker "\<lambda>_. v"] assms(2) by simp
qed

lemma conv_const_kernel:
  "conv (kernel_of radius) (kHalf_of radius) (\<lambda>k. Num v) = Num v"
proof -
  have "0 \<le> kHalf_of radius"
    using kHalf_of_ge_3 [of radius] by simp
  moreover have "length (kernel_of radius) = nat (2 * kHalf_of radius + 1)"
    by (simp add: length_build_kernel kLen_of_def mult.commute)
  ultimately show ?thesis
    by (simp add: conv_const sum_list_build_kernel)
qed

lemma toUint8Clamp_byte: "n \<le> 255 \<Longrightarrow> toUint8Clamp (Num (real n)) = Num (real n)"
  by (simp add: toUint8Clamp_def Let_def)


lemma clamp_index_range: "0 < n \<Longrightarrow> 0 \<le> clamp_index n i \<and> clamp_index n i < int n"
  by (simp add: clamp_index_def)

lemma h_idx_clamp:
  "0 < w \<Longrightarrow> h_idx w row col k = (int row * int w + clamp_index w (int col + k)) * 4"
  by (simp add: h_idx_def clamp_index_def)

lemma v_idx_clamp:
  "0 < h \<Longrightarrow> v_idx w h row col k = (clamp_index h (int row + k) * int w + int col) * 4"
  by (simp add: v_idx_def clamp_index_def)

lemma pixel_lt: "(row::nat) < h \<Longrightarrow> col < w \<Longrightarrow> row * w + col < w * h"
proof -
  assume a: "row < h" "col < w"
  have "row * w + col < row * w + w" using a(2) by simp
  also have "\<dots> = Suc row * w" by simp
  also have "\<dots> \<le> h * w" using a(1) by (intro mult_le_mono1) simp
  finally show ?thesis by (simp add: mult.commute)
qed

lemma h_idx_pixel:
  assumes "row < h" and "col < w"
  shows "\<exists>q. q < w * h \<and> h_idx w row col k = int (q * 4)"
proof -
  have w: "0 < w" using assms(2) by simp
  let ?sc = "nat (clamp_index w (int col + k))"
  have sc: "?sc < w" "int ?sc = clamp_index w (int col + k)"
    using clamp_index_range [OF w, of "int col + k"] by (simp_all add: nat_less_iff)
  have "h_idx w row col k = int ((row * w + ?sc) * 4)"
    using clamp_index_range [OF w, of "int col + k"] by (simp add: h_idx_clamp [OF w])
  moreover have "row * w + ?sc < w * h"
    using assms(1) sc(1) by (rule pixel_lt)
  ultimately show ?thesis by blast
qed

lemma v_idx_pixel:
  assumes "row < h" and "col < w"
  shows "\<exists>q. q < w * h \<and> v_idx w h row col k = int (q * 4)"
proof -
  have h: "0 < h" using assms(1) by simp
  let ?sr = "nat (clamp_index h (int row + k))"
  have sr: "?sr < h" "int ?sr = clamp_index h (int row + k)"
    using clamp_index_range [OF h, of "int row + k"] by (simp_all add: nat_less_iff)
  have "v_idx w h row col k = int ((?sr * w + col) * 4)"
    using clamp_index_range [OF h, of "int row + k"] by (simp add: v_idx_clamp [OF h])
  moreover have "?sr * w + col < w * h"
    using sr(1) assms(2) by (rule pixel_lt)
  ultimately show ?thesis by blast
qed

lemma length_uniform_buffer [simp]: "length (uniform_buffer w h colour) = w * h * 4"
  by (simp add: uniform_buffer_def)

lemma rd_int: "n < length buf \<Longrightarrow> rd buf (int n) = buf ! n"
  by (simp add: rd_def)

lemma rd_uniform:
  assumes "q < w * h" and "c < 4"
  shows "rd (uniform_buffer w h colour) (int (q * 4) + int c) = Num (real (colour ! c))"
proof -
  have lt: "q * 4 + c < w * h * 4" using assms by simp
  have m: "(q * 4 + c) mod 4 = c"
    using assms(2) by simp
  have "rd (uniform_buffer w h colour) (int (q * 4 + c)) = uniform_buffer w h colour ! (q * 4 + c)"
    using lt by (intro rd_int) simp
  also have "\<dots> = Num (real (colour ! ((q * 4 + c) mod 4)))"
    unfolding uniform_buffer_def using lt by (subst nth_map) simp_all
  finally have "rd (uniform_buffer w h colour) (int (q * 4 + c)) = Num (real (colour ! c))"
    unfolding m .
  then show ?thesis
    by (simp only: of_nat_add)
qed

lemma cell_decompose:
  assumes "(i::nat) < w * h * 4"
  shows "\<exists>row col c. row < h \<and> col < w \<and> c < 4 \<and> i = (row * w + col) * 4 + c"
proof -
  have w: "0 < w" using assms by (cases w) simp_all
  let ?p = "i div 4"
  have p: "?p < h * w" using assms by (simp add: mult.commute)
  have "?p div w < h" using p by (rule less_mult_imp_div_less)
  moreover have "?p mod w < w" using w by simp
  moreover have "i mod 4 < 4" by simp
  moreover have "i = ((?p div w) * w + ?p mod w) * 4 + i mod 4" by simp
  ultimately show ?thesis by blast
qed

lemma uniform_nth:
  assumes "row < h" and "col < w" and "c < 4"
  shows "uniform_buffer w h colour ! ((row * w + col) * 4 + c) = Num (real (colour ! c))"
proof -
  have lt: "(row * w + col) * 4 + c < length (uniform_buffer w h colour)"
    using pixel_lt [OF assms(1,2)] assms(3) by simp
  have "rd (uniform_buffer w h colour) (int ((row * w + col) * 4 + c)) = Num (real (colour ! c))"
    using rd_uniform [OF pixel_lt [OF assms(1,2)] assms(3), of colour] by (simp only: of_nat_add)
  then show ?thesis
    unfolding rd_int [OF lt] .
qed

lemma tmp_of_uniform:
  "tmp_of radius w h (uniform_buffer w h colour) = uniform_buffer w h colour"
proof (rule nth_equalityI)
  show "length (tmp_of radius w h (uniform_buffer w h colour)) = length (uniform_buffer w h colour)"
    by simp
next
  fix i
  assume "i < length (tmp_of radius w h (uniform_buffer w h colour))"
  then have i: "i < w * h * 4" by simp
  then obtain row col c where rc: "row < h" "col < w" "c < 4" and ie: "i = (row * w + col) * 4 + c"
    using cell_decompose by blast
  have sample: "rd (uniform_buffer w h colour) (h_idx w row col k + int c) = Num (real (colour ! c))" for k
    using h_idx_pixel [OF rc(1,2), of k] rd_uniform [OF _ rc(3)] by auto
  have "tmp_of radius w h (uniform_buffer w h colour) ! ((row * w + col) * 4 + c) =
        conv (kernel_of radius) (kHalf_of radius)
          (\<lambda>k. rd (uniform_buffer w h colour) (h_idx w row col k + int c))"
    using rc by (rule tmp_of_nth) (use i ie in simp)
  also have "\<dots> = Num (real (colour ! c))"
    by (simp only: sample conv_const_kernel)
  finally show "tmp_of radius w h (uniform_buffer w h colour) ! i = uniform_buffer w h colour ! i"
    unfolding ie uniform_nth [OF rc] .
qed

lemma out_of_uniform:
  assumes "\<forall>c<4. colour ! c \<le> 255"
  shows "out_of radius w h (uniform_buffer w h colour) = uniform_buffer w h colour"
proof (rule nth_equalityI)
  show "length (out_of radius w h (uniform_buffer w h colour)) = length (uniform_buffer w h colour)"
    by simp
next
  fix i
  assume "i < length (out_of radius w h (uniform_buffer w h colour))"
  then have i: "i < w * h * 4" by simp
  then obtain row col c where rc: "row < h" "col < w" "c < 4" and ie: "i = (row * w + col) * 4 + c"
    using cell_decompose by blast
  have sample: "rd (uniform_buffer w h colour) (v_idx w h row col k + int c) = Num (real (colour ! c))" for k
    using v_idx_pixel [OF rc(1,2), of k] rd_uniform [OF _ rc(3)] by auto
  have "out_of radius w h (uniform_buffer w h colour) ! ((row * w + col) * 4 + c) =
        toUint8Clamp (conv (kernel_of radius) (kHalf_of radius)
          (\<lambda>k. rd (tmp_of radius w h (uniform_buffer w h colour)) (v_idx w h row col k + int c)))"
    using rc by (rule out_of_nth) (use i ie in simp)
  also have "\<dots> = toUint8Clamp (Num (real (colour ! c)))"
    by (simp only: tmp_of_uniform sample conv_const_kernel)
  also have "\<dots> = Num (real (colour ! c))"
    using assms rc(3) by (intro toUint8Clamp_byte) simp
  finally show "out_of radius w h (uniform_buffer w h colour) ! i = uniform_buffer w h colour ! i"
    unfolding ie uniform_nth [OF rc] .
qed

subsection \<open>Facts about the whole blur\<close>

lemma deref_old: "a < length H \<Longrightarrow> deref (H @ xs) a = deref H a"
  by (simp add: deref_def nth_append)


lemma deref_out: "deref (H @ [t, u]) (Suc (length H)) = u"
  by (simp add: deref_def nth_append)







lemma length_alphas [simp]: "length (alphas buf) = length buf div 4"
  by (simp add: alphas_def)

subsection \<open>Facts about the compositing\<close>

lemma px_add_zero [simp]: "px_add p (0, 0, 0, 0) = p"
  by (cases p) (simp add: px_add_def)

lemma px_scale_zero [simp]: "px_scale k (0, 0, 0, 0) = (0, 0, 0, 0)"
  by (simp add: px_scale_def)

lemma px_alpha_scale [simp]: "px_alpha (px_scale k p) = k * px_alpha p"
  by (cases p) (simp add: px_scale_def px_alpha_def)













section \<open>The claims\<close>




text \<open>
  Claim C2.  For every radius greater than 0, the kernel that the blur routine builds has
  length \<open>2 * halfWidth + 1\<close>, where \<open>sigma = max 1 (radius / 2.5)\<close> and
  \<open>halfWidth = ceil (3 * sigma)\<close>; its weights sum to 1 within \<open>10\<^sup>-\<^sup>6\<close> (in exact
  arithmetic they sum to exactly 1); and it is symmetric: the weight at index \<open>i\<close> equals the
  weight at index \<open>len - 1 - i\<close>.
\<close>

theorem kernel_length_normalised_symmetric:
  assumes "0 < radius"
  shows "sigma_of radius = max 1 (radius / 2.5)
       \<and> kHalf_of radius = \<lceil>3 * sigma_of radius\<rceil>
       \<and> length (kernel_of radius) = nat (2 * kHalf_of radius + 1)
       \<and> \<bar>sum_list (kernel_of radius) - 1\<bar> \<le> 1 / 10 ^ 6
       \<and> (\<forall>i < length (kernel_of radius).
            kernel_of radius ! i = kernel_of radius ! (length (kernel_of radius) - 1 - i))"
proof -
  have "sigma_of radius = max 1 (radius / 2.5)"
    by (simp add: sigma_of_def)
  moreover have "kHalf_of radius = \<lceil>3 * sigma_of radius\<rceil>"
    by (simp add: kHalf_of_def mult.commute)
  moreover have "length (kernel_of radius) = nat (2 * kHalf_of radius + 1)"
    by (simp add: length_build_kernel kLen_of_def mult.commute)
  moreover have "\<bar>sum_list (kernel_of radius) - 1\<bar> \<le> 1 / 10 ^ 6"
    by (simp add: sum_list_build_kernel)
  moreover have "\<forall>i < length (kernel_of radius).
      kernel_of radius ! i = kernel_of radius ! (length (kernel_of radius) - 1 - i)"
    using build_kernel_symmetric by blast
  ultimately show ?thesis by blast
qed

theorem kernel_length_normalised_symmetric_witness:
  "(0::real) < 15
   \<and> sigma_of 15 = 6 \<and> kHalf_of 15 = 18 \<and> length (kernel_of 15) = 37
   \<and> \<bar>sum_list (kernel_of 15) - 1\<bar> \<le> 1 / 10 ^ 6
   \<and> kernel_of 15 ! 0 = kernel_of 15 ! 36"
proof -
  have h: "(0::real) < 15" by simp
  note t = kernel_length_normalised_symmetric [OF h]
  have s: "sigma_of 15 = 6"
    using t [THEN conjunct1] by simp
  have k: "kHalf_of 15 = 18"
    using t [THEN conjunct2, THEN conjunct1] by (simp add: s)
  have l: "length (kernel_of 15) = 37"
    using t [THEN conjunct2, THEN conjunct2, THEN conjunct1] by (simp add: k)
  have n: "\<bar>sum_list (kernel_of 15) - 1\<bar> \<le> 1 / 10 ^ 6"
    by (rule t [THEN conjunct2, THEN conjunct2, THEN conjunct2, THEN conjunct1])
  have "kernel_of 15 ! 0 = kernel_of 15 ! (length (kernel_of 15) - 1 - 0)"
    using t [THEN conjunct2, THEN conjunct2, THEN conjunct2, THEN conjunct2, rule_format, of 0] l
    by simp
  then have y: "kernel_of 15 ! 0 = kernel_of 15 ! 36"
    by (simp add: l)
  from h s k l n y show ?thesis by blast
qed

text \<open>
  Claim C9, as stated: for every pair of radii \<open>r1 < r2\<close> the half-width computed for \<open>r2\<close>
  is larger than the one computed for \<open>r1\<close>.  This fails: the radii 1 and 2 both give
  \<open>sigma = 1\<close> and half-width 3.
\<close>

theorem halfwidth_strict_counterexample:
  "(1::real) < 2 \<and> \<not> kHalf_of 1 < kHalf_of 2"
  by (simp add: kHalf_of_def sigma_of_def)

text \<open>
  Claim C9, amended: for every pair of radii \<open>r1 < r2\<close> the half-width computed for \<open>r2\<close> is
  at least the half-width computed for \<open>r1\<close>, and so is the kernel length (the support never
  shrinks as the radius grows; it need not grow).
\<close>

theorem halfwidth_monotone:
  assumes "r1 < r2"
  shows "kHalf_of r1 \<le> kHalf_of r2 \<and> length (kernel_of r1) \<le> length (kernel_of r2)"
proof -
  have "kHalf_of r1 \<le> kHalf_of r2"
    using assms by (intro kHalf_of_mono) simp
  then show ?thesis
    by (simp add: length_build_kernel kLen_of_def)
qed

theorem halfwidth_monotone_witness:
  "(1::real) < 10 \<and> kHalf_of 1 = 3 \<and> kHalf_of 10 = 12
   \<and> kHalf_of 1 \<le> kHalf_of 10 \<and> length (kernel_of 1) \<le> length (kernel_of 10)"
proof -
  have h: "(1::real) < 10" by simp
  have a: "kHalf_of 1 = 3" by (simp add: kHalf_of_def sigma_of_def)
  have b: "kHalf_of 10 = 12" by (simp add: kHalf_of_def sigma_of_def)
  from halfwidth_monotone [OF h] show ?thesis
    by (simp add: a b)
qed

text \<open>
  Claim C10.  For every region and every canvas of width \<open>w\<close> and height \<open>h\<close>, the expanded
  box \<open>(fx, fy, fw, fh)\<close> computed for the mask satisfies \<open>fx \<ge> 0\<close>, \<open>fy \<ge> 0\<close>,
  \<open>fx + fw \<le> w\<close> and \<open>fy + fh \<le> h\<close>; hence no point of the ellipse inscribed in it (centre
  \<open>(fx + fw/2, fy + fh/2)\<close>, radii \<open>fw/2\<close> and \<open>fh/2\<close>) lies past a canvas edge.
\<close>

theorem expanded_box_within_canvas:
  assumes "expand_box w h bx = (fx, fy, fw, fh)"
  shows "0 \<le> fx \<and> 0 \<le> fy \<and> fx + fw \<le> real w \<and> fy + fh \<le> real h
       \<and> (\<forall>px py. in_ellipse (fx + fw / 2) (fy + fh / 2) (fw / 2) (fh / 2) px py
            \<longrightarrow> 0 \<le> px \<and> px \<le> real w \<and> 0 \<le> py \<and> py \<le> real h)"
proof -
  note b = expand_box_bounds [OF assms]
  have "0 \<le> px \<and> px \<le> real w \<and> 0 \<le> py \<and> py \<le> real h"
    if "in_ellipse (fx + fw / 2) (fy + fh / 2) (fw / 2) (fh / 2) px py" for px py
    using in_ellipse_extent [OF that] b by simp
  with b show ?thesis by blast
qed

theorem expanded_box_within_canvas_witness:
  "expand_box 100 100 \<lparr>box_x = 25, box_y = 25, box_width = 50, box_height = 50\<rparr> = (15, 10, 70, 75)
   \<and> in_ellipse (15 + 70 / 2) (10 + 75 / 2) (70 / 2) (75 / 2) 50 10
   \<and> (0::real) \<le> 15 \<and> (0::real) \<le> 10 \<and> (15::real) + 70 \<le> real 100 \<and> (10::real) + 75 \<le> real 100
   \<and> (0::real) \<le> 50 \<and> (50::real) \<le> real 100"
proof -
  have e: "expand_box 100 100 \<lparr>box_x = 25, box_y = 25, box_width = 50, box_height = 50\<rparr> = (15, 10, 70, 75)"
    by (simp add: expand_box_def)
  have i: "in_ellipse (15 + 70 / 2) (10 + 75 / 2) (70 / 2) (75 / 2) 50 10"
    by (simp add: in_ellipse_def power2_eq_square)
  from expanded_box_within_canvas [OF e] i e show ?thesis
    by simp
qed


text \<open>
  Claim C6.  If the detector returns no region, the pipeline stops right after decoding: the
  canvas that is written out is the decoded canvas itself (so its pixels are those of the
  decoded input, whatever the blur would have produced), and \<^verbatim>\<open>separableGaussianBlur\<close> is
  never called.
\<close>

theorem no_detection_passthrough:
  "main_canvas (blurFaces getImageData img w h []) = decoded_canvas img w h
   \<and> getImageData (main_canvas (blurFaces getImageData img w h [])) =
       getImageData (decoded_canvas img w h)
   \<and> blur_calls (blurFaces getImageData img w h []) = []"
  by (simp add: blurFaces_def Let_def)

text \<open>
  Claim C3.  For every width, height and radius, the blur of a buffer in which every pixel has
  the same RGBA colour (four bytes) returns a buffer in which every pixel has that colour: the
  returned array equals the source array.
\<close>

theorem blur_preserves_uniform_colour:
  assumes "r \<le> 255" and "g \<le> 255" and "b \<le> 255" and "a \<le> 255"
    and "src < length H"
    and "deref H src = uniform_buffer w h [r, g, b, a]"
    and "separableGaussianBlur H src w h radius = (H', out)"
  shows "deref H' out = uniform_buffer w h [r, g, b, a]"
proof -
  have H': "H' = H @ [tmp_of radius w h (deref H src), out_of radius w h (deref H src)]"
    and out: "out = Suc (length H)"
    using assms(7) unfolding blur_eq [OF assms(5)] by simp_all
  have "[r, g, b, a] ! c \<le> 255" if "c < 4" for c
  proof -
    from that have "c = 0 \<or> c = 1 \<or> c = 2 \<or> c = 3" by linarith
    then show ?thesis using assms(1-4) by auto
  qed
  then have bytes: "\<forall>c<4. [r, g, b, a] ! c \<le> 255"
    by blast
  have "deref H' out = out_of radius w h (uniform_buffer w h [r, g, b, a])"
    unfolding H' out deref_out assms(6) ..
  then show ?thesis
    by (simp only: out_of_uniform [OF bytes])
qed

theorem blur_preserves_uniform_colour_witness:
  "(255::nat) \<le> 255 \<and> (0::nat) \<le> 255 \<and> (0::nat) < length [uniform_buffer 2 1 [255, 0, 0, 255]]
   \<and> uniform_buffer 2 1 [255, 0, 0, 255] =
       [Num 255, Num 0, Num 0, Num 255, Num 255, Num 0, Num 0, Num 255]
   \<and> deref (fst (separableGaussianBlur [uniform_buffer 2 1 [255, 0, 0, 255]] 0 2 1 15))
        (snd (separableGaussianBlur [uniform_buffer 2 1 [255, 0, 0, 255]] 0 2 1 15)) =
       [Num 255, Num 0, Num 0, Num 255, Num 255, Num 0, Num 0, Num 255]"
proof -
  let ?H = "[uniform_buffer 2 1 [255, 0, 0, 255]]"
  have x: "(255::nat) \<le> 255" and y: "(0::nat) \<le> 255" by simp_all
  have a: "(0::nat) < length ?H" by simp
  have b: "separableGaussianBlur ?H 0 2 1 15 =
      (fst (separableGaussianBlur ?H 0 2 1 15), snd (separableGaussianBlur ?H 0 2 1 15))"
    by simp
  have d: "deref ?H 0 = uniform_buffer 2 1 [255, 0, 0, 255]"
    by (simp add: deref_def)
  have u: "uniform_buffer 2 1 [255, 0, 0, 255] =
       [Num 255, Num 0, Num 0, Num 255, Num 255, Num 0, Num 0, Num 255]"
    by (simp add: uniform_buffer_def upt_conv_Cons)
  from blur_preserves_uniform_colour [OF x y y x a d b] x y a u show ?thesis
    by (simp only: simp_thms)
qed






text \<open>
  Claim C8.  The blur never writes to its source array: after the call the source array, and
  every other array that existed before, holds the values it held before; the result is an
  array allocated by the call (its address is not an address of the old heap), of the length
  of the source array, which is \<open>w * h * 4\<close> when the source has that length.
\<close>

theorem blur_leaves_source_untouched:
  assumes "src < length H" and "separableGaussianBlur H src w h radius = (H', out)"
  shows "deref H' src = deref H src
       \<and> (\<forall>a < length H. deref H' a = deref H a)
       \<and> length H \<le> out \<and> out < length H'
       \<and> length (deref H' out) = length (deref H src)
       \<and> (length (deref H src) = w * h * 4 \<longrightarrow> length (deref H' out) = w * h * 4)"
proof -
  have H': "H' = H @ [tmp_of radius w h (deref H src), out_of radius w h (deref H src)]"
    and out: "out = Suc (length H)"
    using assms(2) unfolding blur_eq [OF assms(1)] by simp_all
  have old: "deref H' a = deref H a" if "a < length H" for a
    unfolding H' using that by (rule deref_old)
  have len: "length (deref H' out) = length (deref H src)"
    unfolding H' out deref_out by simp
  show ?thesis
    using old assms(1) len by (simp add: out H')
qed

theorem blur_leaves_source_untouched_witness:
  "(0::nat) < length [[Num 1, Num 2, Num 3, Num 4]]
   \<and> deref (fst (separableGaussianBlur [[Num 1, Num 2, Num 3, Num 4]] 0 1 1 15)) 0 = [Num 1, Num 2, Num 3, Num 4]
   \<and> 1 \<le> snd (separableGaussianBlur [[Num 1, Num 2, Num 3, Num 4]] 0 1 1 15)
   \<and> length (deref (fst (separableGaussianBlur [[Num 1, Num 2, Num 3, Num 4]] 0 1 1 15))
               (snd (separableGaussianBlur [[Num 1, Num 2, Num 3, Num 4]] 0 1 1 15))) = 4"
proof -
  have a: "(0::nat) < length [[Num 1, Num 2, Num 3, Num 4]]" by simp
  have b: "separableGaussianBlur [[Num 1, Num 2, Num 3, Num 4]] 0 1 1 15 =
      (fst (separableGaussianBlur [[Num 1, Num 2, Num 3, Num 4]] 0 1 1 15),
       snd (separableGaussianBlur [[Num 1, Num 2, Num 3, Num 4]] 0 1 1 15))"
    by simp
  have d: "deref [[Num 1, Num 2, Num 3, Num 4]] 0 = [Num 1, Num 2, Num 3, Num 4]"
    by (simp add: deref_def)
  from blur_leaves_source_untouched [OF a b, unfolded d] show ?thesis
    by simp
qed

end
